theory Spec2Isabelle
  imports Main "HOL-Library.Word"
begin

section \<open>The worker pool of workerpool.go as an interleaving transition system\<close>

text \<open>
  The pool is used from several goroutines at once: the callers of \<open>Do\<close>, \<open>DoWait\<close>
  and \<open>Wait\<close>, the goroutine running \<open>loop\<close>, the workers it starts and one watchdog
  per task run under a timeout. Each goroutine is a small program counter with its local
  variables; one step of the system runs one goroutine up to its next access to shared
  memory or a channel. The step function is deterministic in the chosen action, so every
  schedule can be replayed.
\<close>

subsection \<open>Values\<close>

text \<open>
  Errors seen by the pool: \<open>ct.Err()\<close> of an expired \<open>context.WithTimeout\<close> is
  \<open>context.DeadlineExceeded\<close>; every other error is one returned by a task.
\<close>

datatype error = DeadlineExceeded | TaskError nat

text \<open>
  Modelled from the spec: the type \<open>TaskHandler\<close> is declared outside workerpool.go; it is
  "a no-argument callable returning an optional error". The pool never looks inside a
  task, so a task body is its identity (a label) and the error it returns. Running it is
  recorded in the history \<open>executed\<close> of the state.
\<close>

datatype task = Task (label: nat) (outcome: "error option")

text \<open>
  The two kinds of function value that travel through the queue: a caller's task as handed
  to \<open>Do\<close>, and the closure that \<open>DoWait\<close> builds around its argument and its private
  \<open>doneChan\<close> (lines 63-67). The argument of \<open>DoWait\<close> may be nil while the closure around
  it never is. A queue entry is \<open>None\<close> for a nil function value.
\<close>

datatype handler = Plain task | Wrapped "task option" nat

type_synonym TaskHandler = "handler option"

subsection \<open>Buffered channels\<close>

record 'a chan =
  buf :: "'a list"
  cap :: int
  is_closed :: bool

definition make_chan :: "int \<Rightarrow> 'a chan" where
  "make_chan n = \<lparr>buf = [], cap = n, is_closed = False\<rparr>"

datatype 'a sent = Sent "'a chan" | SendBlocks | SendPanics

text \<open>\<open>ch <- x\<close>: a send on a closed channel panics, a send on a full one blocks.\<close>

definition chan_send :: "'a chan \<Rightarrow> 'a \<Rightarrow> 'a sent" where
  "chan_send ch x =
     (if is_closed ch then SendPanics
      else if int (length (buf ch)) < cap ch then Sent (ch\<lparr>buf := buf ch @ [x]\<rparr>)
      else SendBlocks)"

datatype 'a received = Received 'a "'a chan" | RecvBlocks | RecvClosed

text \<open>\<open><-ch\<close>: buffered values are delivered first, also after close.\<close>

definition chan_recv :: "'a chan \<Rightarrow> 'a received" where
  "chan_recv ch =
     (case buf ch of
        x # xs \<Rightarrow> Received x (ch\<lparr>buf := xs\<rparr>)
      | [] \<Rightarrow> if is_closed ch then RecvClosed else RecvBlocks)"

text \<open>\<open>close(ch)\<close>: closing a closed channel panics (\<open>None\<close>).\<close>

definition chan_close :: "'a chan \<Rightarrow> 'a chan option" where
  "chan_close ch = (if is_closed ch then None else Some (ch\<lparr>is_closed := True\<rparr>))"

subsection \<open>The pool\<close>

text \<open>
  Modelled from the spec: the struct \<open>WorkerPool\<close> is declared outside workerpool.go. Its
  fields are the ones the functions of workerpool.go use: \<open>maxWorkersCount\<close>, the channels
  \<open>task\<close> and \<open>errChan\<close>, the int32 \<open>closed\<close> read and written through sync/atomic, the
  duration \<open>timeout\<close>, the sync.Once \<open>start\<close> (has it run) and the sync.WaitGroup \<open>wg\<close>
  (its counter).
\<close>

record WorkerPool =
  maxWorkersCount :: int
  task :: "TaskHandler chan"
  errChan :: "error chan"
  closed :: "32 word"
  timeout :: int
  start :: bool
  wg :: int

definition New :: "int \<Rightarrow> WorkerPool" where
  "New max0 =
     (let max1 = (if max0 < 1 then 1 else max0)
      in \<lparr>maxWorkersCount = max1, task = make_chan max1, errChan = make_chan 1,
          closed = 0, timeout = 0, start = False, wg = 0\<rparr>)"

definition SetTimeout :: "WorkerPool \<Rightarrow> int \<Rightarrow> WorkerPool" where
  "SetTimeout p d = p\<lparr>timeout := d\<rparr>"

subsection \<open>Goroutines\<close>

text \<open>Where a call of \<open>Do\<close>, \<open>DoWait\<close> or \<open>Wait\<close> stands, by the line it executes next.\<close>

datatype do_pc = Do_once | Do_check | Do_send

datatype dowait_pc = DoWait_once | DoWait_check | DoWait_send nat | DoWait_recv nat

datatype wait_pc = Wait_close | Wait_join | Wait_select

datatype call =
    InDo do_pc "task option"
  | InDoWait dowait_pc "task option"
  | InWait wait_pc
  | Returned
  | WaitReturned "error option"

text \<open>
  A worker (the goroutine of lines 74-111). \<open>Receive\<close> is the receive of line 77, \<open>Check\<close>
  the test of line 78 on the value received, \<open>Arm\<close> lines 82-97, \<open>Running\<close> the call of
  line 99 (with the index of its watchdog, if one was started), \<open>Closing\<close> line 65 inside
  the closure of \<open>DoWait\<close>, \<open>Finished\<close> line 100, \<open>Report\<close> the select of line 102,
  \<open>Latch\<close> lines 105-106, \<open>Exited\<close> a worker whose deferred \<open>wg.Done\<close> has run.
\<close>

datatype worker =
    Receive
  | Check TaskHandler
  | Arm handler
  | Running handler "nat option"
  | Closing nat "error option" "nat option"
  | Finished "error option" "nat option"
  | Report error
  | Latch error
  | Exited

text \<open>
  A watchdog (the goroutine of lines 86-96): \<open>Select b\<close> waits in the select, \<open>b\<close> telling
  whether the worker has closed the channel \<open>closed\<close> of this run; \<open>Send\<close> is line 89,
  \<open>Store\<close> lines 91-93.
\<close>

datatype watchdog = Select bool | Send | Store | Stopped

record state =
  pool :: WorkerPool
  calls :: "call list"
  looper :: "int option"
  workers :: "worker list"
  dogs :: "watchdog list"
  done_chans :: "bool list"
  executed :: "handler list"
  logged :: "error list"
  panicked :: bool

definition boot :: "int \<Rightarrow> state" where
  "boot max0 = \<lparr>pool = New max0, calls = [], looper = None, workers = [], dogs = [],
     done_chans = [], executed = [], logged = [], panicked = False\<rparr>"

definition set_call :: "nat \<Rightarrow> call \<Rightarrow> state \<Rightarrow> state" where
  "set_call c k s = s\<lparr>calls := (calls s)[c := k]\<rparr>"

definition set_worker :: "nat \<Rightarrow> worker \<Rightarrow> state \<Rightarrow> state" where
  "set_worker w k s = s\<lparr>workers := (workers s)[w := k]\<rparr>"

definition set_dog :: "nat \<Rightarrow> watchdog \<Rightarrow> state \<Rightarrow> state" where
  "set_dog d k s = s\<lparr>dogs := (dogs s)[d := k]\<rparr>"

definition panic :: "state \<Rightarrow> state" where
  "panic s = s\<lparr>panicked := True\<rparr>"

text \<open>
  \<open>p.start.Do(func() { p.wg.Add(p.maxWorkersCount); go p.loop() })\<close> (lines 39-42 and
  53-56): the first caller adds to the wait group and starts the goroutine of \<open>loop\<close>.
\<close>

definition once :: "state \<Rightarrow> state" where
  "once s =
     (if start (pool s) then s
      else s\<lparr>pool := (pool s)\<lparr>start := True,
                               wg := wg (pool s) + maxWorkersCount (pool s)\<rparr>,
             looper := Some 0\<rparr>)"

text \<open>\<open>p.task <- fn\<close> by call \<open>c\<close>, which goes on as \<open>k\<close> once the value is in the queue.\<close>

definition enqueue :: "nat \<Rightarrow> TaskHandler \<Rightarrow> call \<Rightarrow> state \<Rightarrow> state option" where
  "enqueue c fn k s =
     (case chan_send (task (pool s)) fn of
        Sent ch \<Rightarrow> Some (set_call c k (s\<lparr>pool := (pool s)\<lparr>task := ch\<rparr>\<rparr>))
      | SendBlocks \<Rightarrow> None
      | SendPanics \<Rightarrow> Some (panic s))"

fun Do :: "nat \<Rightarrow> do_pc \<Rightarrow> task option \<Rightarrow> state \<Rightarrow> state option" where
  "Do c Do_once fn s = Some (set_call c (InDo Do_check fn) (once s))"
| "Do c Do_check fn s =
     (if closed (pool s) = 1 then Some (set_call c Returned s)
      else Some (set_call c (InDo Do_send fn) s))"
| "Do c Do_send fn s = enqueue c (map_option Plain fn) Returned s"

fun DoWait :: "nat \<Rightarrow> dowait_pc \<Rightarrow> task option \<Rightarrow> state \<Rightarrow> state option" where
  "DoWait c DoWait_once t s = Some (set_call c (InDoWait DoWait_check t) (once s))"
| "DoWait c DoWait_check t s =
     (if closed (pool s) = 1 then Some (set_call c Returned s)
      else Some (set_call c (InDoWait (DoWait_send (length (done_chans s))) t)
                   (s\<lparr>done_chans := done_chans s @ [False]\<rparr>)))"
| "DoWait c (DoWait_send d) t s =
     enqueue c (Some (Wrapped t d)) (InDoWait (DoWait_recv d) t) s"
| "DoWait c (DoWait_recv d) t s =
     (if d < length (done_chans s) \<and> done_chans s ! d then Some (set_call c Returned s)
      else None)"

fun Wait :: "nat \<Rightarrow> wait_pc \<Rightarrow> state \<Rightarrow> state option" where
  "Wait c Wait_close s =
     (case chan_close (task (pool s)) of
        None \<Rightarrow> Some (panic s)
      | Some ch \<Rightarrow> Some (set_call c (InWait Wait_join) (s\<lparr>pool := (pool s)\<lparr>task := ch\<rparr>\<rparr>)))"
| "Wait c Wait_join s =
     (if wg (pool s) = 0 then Some (set_call c (InWait Wait_select) s) else None)"
| "Wait c Wait_select s =
     (case chan_recv (errChan (pool s)) of
        Received e ch \<Rightarrow>
          Some (set_call c (WaitReturned (Some e)) (s\<lparr>pool := (pool s)\<lparr>errChan := ch\<rparr>\<rparr>))
      | RecvBlocks \<Rightarrow> Some (set_call c (WaitReturned None) s)
      | RecvClosed \<Rightarrow> Some (set_call c (WaitReturned None) s))"

text \<open>The goroutine of \<open>loop\<close> itself: lines 73-112, one worker started per round.\<close>

definition loop :: "state \<Rightarrow> state option" where
  "loop s =
     (case looper s of
        None \<Rightarrow> None
      | Some i \<Rightarrow>
          if i < maxWorkersCount (pool s)
          then Some (s\<lparr>workers := workers s @ [Receive], looper := Some (i + 1)\<rparr>)
          else Some (s\<lparr>looper := None\<rparr>))"

text \<open>\<open>close(closed)\<close> of line 100, as the watchdog of that run sees it.\<close>

fun signal :: "watchdog \<Rightarrow> watchdog" where
  "signal (Select b) = Select True"
| "signal k = k"

definition close_closed :: "nat option \<Rightarrow> state \<Rightarrow> state" where
  "close_closed wd s =
     (case wd of None \<Rightarrow> s | Some k \<Rightarrow> s\<lparr>dogs := (dogs s)[k := signal (dogs s ! k)]\<rparr>)"

text \<open>One step of worker \<open>w\<close>, the body of the goroutine of lines 74-111.\<close>

fun loop_worker :: "nat \<Rightarrow> worker \<Rightarrow> state \<Rightarrow> state option" where
  "loop_worker w Receive s =
     (case chan_recv (task (pool s)) of
        Received wt ch \<Rightarrow> Some (set_worker w (Check wt) (s\<lparr>pool := (pool s)\<lparr>task := ch\<rparr>\<rparr>))
      | RecvBlocks \<Rightarrow> None
      | RecvClosed \<Rightarrow>
          if wg (pool s) - 1 < 0 then Some (panic s)
          else Some (set_worker w Exited (s\<lparr>pool := (pool s)\<lparr>wg := wg (pool s) - 1\<rparr>\<rparr>)))"
| "loop_worker w (Check wt) s =
     (case wt of
        None \<Rightarrow> Some (set_worker w Receive s)
      | Some h \<Rightarrow>
          if closed (pool s) = 1 then Some (set_worker w Receive s)
          else Some (set_worker w (Arm h) s))"
| "loop_worker w (Arm h) s =
     (if timeout (pool s) > 0
      then Some (set_worker w (Running h (Some (length (dogs s))))
                   (s\<lparr>dogs := dogs s @ [Select False]\<rparr>))
      else Some (set_worker w (Running h None) s))"
| "loop_worker w (Running h wd) s =
     (case h of
        Plain t \<Rightarrow>
          Some (set_worker w (Finished (outcome t) wd) (s\<lparr>executed := executed s @ [h]\<rparr>))
      | Wrapped None d \<Rightarrow> Some (panic s)
      | Wrapped (Some t) d \<Rightarrow>
          Some (set_worker w (Closing d (outcome t) wd) (s\<lparr>executed := executed s @ [h]\<rparr>)))"
| "loop_worker w (Closing d err wd) s =
     (if d < length (done_chans s) \<and> \<not> done_chans s ! d
      then Some (set_worker w (Finished err wd) (s\<lparr>done_chans := (done_chans s)[d := True]\<rparr>))
      else Some (panic s))"
| "loop_worker w (Finished err wd) s =
     (case err of
        None \<Rightarrow> Some (set_worker w Receive (close_closed wd s))
      | Some e \<Rightarrow> Some (set_worker w (Report e) (close_closed wd s)))"
| "loop_worker w (Report e) s =
     (case chan_send (errChan (pool s)) e of
        Sent ch \<Rightarrow> Some (set_worker w (Latch e) (s\<lparr>pool := (pool s)\<lparr>errChan := ch\<rparr>\<rparr>))
      | SendBlocks \<Rightarrow> Some (set_worker w Receive s)
      | SendPanics \<Rightarrow> Some (panic s))"
| "loop_worker w (Latch e) s =
     Some (set_worker w Receive (s\<lparr>logged := logged s @ [e], pool := (pool s)\<lparr>closed := 1\<rparr>\<rparr>))"
| "loop_worker w Exited s = None"

text \<open>
  The watchdog of lines 86-96. Time is not modelled: the timer of the context may expire
  at any moment, which is the action \<open>Timer\<close>; the select then takes \<open>case <-ct.Done()\<close>.
\<close>

fun loop_timer :: "nat \<Rightarrow> watchdog \<Rightarrow> state \<Rightarrow> state option" where
  "loop_timer k (Select b) s = Some (set_dog k Send s)"
| "loop_timer k _ s = None"

fun loop_watchdog :: "nat \<Rightarrow> watchdog \<Rightarrow> state \<Rightarrow> state option" where
  "loop_watchdog k (Select b) s = (if b then Some (set_dog k Stopped s) else None)"
| "loop_watchdog k Send s =
     (case chan_send (errChan (pool s)) DeadlineExceeded of
        Sent ch \<Rightarrow> Some (set_dog k Store (s\<lparr>pool := (pool s)\<lparr>errChan := ch\<rparr>\<rparr>))
      | SendBlocks \<Rightarrow> None
      | SendPanics \<Rightarrow> Some (panic s))"
| "loop_watchdog k Store s =
     Some (set_dog k Stopped
        (s\<lparr>logged := logged s @ [DeadlineExceeded], pool := (pool s)\<lparr>closed := 1\<rparr>\<rparr>))"
| "loop_watchdog k Stopped s = None"

subsection \<open>The system\<close>

text \<open>
  The callers are arbitrary: any goroutine may start a call of \<open>Do\<close>, \<open>DoWait\<close>, \<open>Wait\<close> or
  \<open>SetTimeout\<close> at any moment. \<open>Client c\<close> runs call \<open>c\<close> one step, \<open>Spawner\<close> the goroutine
  of \<open>loop\<close>, \<open>Work w\<close> worker \<open>w\<close>, \<open>Watch k\<close> watchdog \<open>k\<close>, \<open>Timer k\<close> lets the timer of
  watchdog \<open>k\<close> expire. A step that is \<open>None\<close> is blocked. A panic ends the program.
\<close>

datatype action =
    Call_Do "task option"
  | Call_DoWait "task option"
  | Call_Wait
  | Call_SetTimeout int
  | Client nat
  | Spawner
  | Work nat
  | Timer nat
  | Watch nat

definition client :: "nat \<Rightarrow> state \<Rightarrow> state option" where
  "client c s =
     (if c < length (calls s) then
        (case calls s ! c of
           InDo pc fn \<Rightarrow> Do c pc fn s
         | InDoWait pc t \<Rightarrow> DoWait c pc t s
         | InWait pc \<Rightarrow> Wait c pc s
         | Returned \<Rightarrow> None
         | WaitReturned e \<Rightarrow> None)
      else None)"

fun step :: "state \<Rightarrow> action \<Rightarrow> state option" where
  "step s a =
     (if panicked s then None
      else case a of
        Call_Do fn \<Rightarrow> Some (s\<lparr>calls := calls s @ [InDo Do_once fn]\<rparr>)
      | Call_DoWait t \<Rightarrow> Some (s\<lparr>calls := calls s @ [InDoWait DoWait_once t]\<rparr>)
      | Call_Wait \<Rightarrow> Some (s\<lparr>calls := calls s @ [InWait Wait_close]\<rparr>)
      | Call_SetTimeout d \<Rightarrow> Some (s\<lparr>pool := SetTimeout (pool s) d\<rparr>)
      | Client c \<Rightarrow> client c s
      | Spawner \<Rightarrow> loop s
      | Work w \<Rightarrow> (if w < length (workers s) then loop_worker w (workers s ! w) s else None)
      | Timer k \<Rightarrow> (if k < length (dogs s) then loop_timer k (dogs s ! k) s else None)
      | Watch k \<Rightarrow> (if k < length (dogs s) then loop_watchdog k (dogs s ! k) s else None))"

fun run :: "state \<Rightarrow> action list \<Rightarrow> state option" where
  "run s [] = Some s"
| "run s (a # as) = (case step s a of None \<Rightarrow> None | Some s' \<Rightarrow> run s' as)"

inductive reachable :: "state \<Rightarrow> bool" where
  reachable_boot: "reachable (boot max0)"
| reachable_step: "reachable s \<Longrightarrow> step s a = Some s' \<Longrightarrow> reachable s'"

subsection \<open>Accounting of the wait group\<close>

text \<open>
  \<open>pending\<close> is the number of workers the goroutine of \<open>loop\<close> has still to start, \<open>live\<close>
  the number of workers that have not exited. \<open>wg_inv\<close> relates them to the counter of the
  wait group.
\<close>

definition to_start :: "int \<Rightarrow> int option \<Rightarrow> int" where
  "to_start m lp = (case lp of None \<Rightarrow> 0 | Some i \<Rightarrow> m - i)"

definition pending :: "state \<Rightarrow> int" where
  "pending s = to_start (maxWorkersCount (pool s)) (looper s)"

definition live :: "worker list \<Rightarrow> nat" where
  "live ws = length (filter (\<lambda>w. w \<noteq> Exited) ws)"

definition wg_ok :: "int \<Rightarrow> int \<Rightarrow> bool \<Rightarrow> int option \<Rightarrow> worker list \<Rightarrow> bool" where
  "wg_ok m g st lp ws =
     (1 \<le> m \<and> g = to_start m lp + int (live ws)
      \<and> (case lp of
           Some i \<Rightarrow> st \<and> 0 \<le> i \<and> i \<le> m \<and> int (length ws) = i
         | None \<Rightarrow> if st then int (length ws) = m else ws = []))"

definition wg_inv :: "state \<Rightarrow> bool" where
  "wg_inv s =
     wg_ok (maxWorkersCount (pool s)) (wg (pool s)) (start (pool s)) (looper s) (workers s)"

subsection \<open>The wrapper of a call of DoWait\<close>

text \<open>
  A call of \<open>DoWait\<close> makes one completion channel and one closure around it. The closure
  is in exactly one place at a time: with the caller before its send, in the queue, in the
  hands of a worker, or in the history once it has run. \<open>tokens d\<close> counts the places that
  hold a closure around completion channel \<open>d\<close>.
\<close>

fun wraps :: "nat \<Rightarrow> handler \<Rightarrow> bool" where
  "wraps d (Wrapped t d') = (d' = d)"
| "wraps d (Plain t) = False"

fun queued :: "nat \<Rightarrow> TaskHandler \<Rightarrow> bool" where
  "queued d None = False"
| "queued d (Some h) = wraps d h"

fun sending :: "nat \<Rightarrow> call \<Rightarrow> bool" where
  "sending d (InDoWait (DoWait_send d') t) = (d' = d)"
| "sending d k = False"

fun holding :: "nat \<Rightarrow> worker \<Rightarrow> bool" where
  "holding d (Check wt) = queued d wt"
| "holding d (Arm h) = wraps d h"
| "holding d (Running h wd) = wraps d h"
| "holding d k = False"

definition tokens :: "nat \<Rightarrow> state \<Rightarrow> nat" where
  "tokens d s =
     length (filter (sending d) (calls s)) + length (filter (queued d) (buf (task (pool s))))
     + length (filter (holding d) (workers s)) + length (filter (wraps d) (executed s))"

definition tok_inv :: "state \<Rightarrow> bool" where
  "tok_inv s = (\<forall>d. tokens d s \<le> (if d < length (done_chans s) then 1 else 0))"

text \<open>
  \<open>has_run d\<close>: a closure around completion channel \<open>d\<close> has run its task. \<open>done_ok d\<close>:
  if channel \<open>d\<close> is closed, or a worker is about to close it (line 65), that has happened.
\<close>

definition cnt :: "('a \<Rightarrow> bool) \<Rightarrow> 'a list \<Rightarrow> nat" where
  "cnt P xs = length (filter P xs)"

definition has_run :: "nat \<Rightarrow> state \<Rightarrow> bool" where
  "has_run d s = (0 < cnt (wraps d) (executed s))"

fun closing :: "nat \<Rightarrow> worker \<Rightarrow> bool" where
  "closing d (Closing d' e wd) = (d' = d)"
| "closing d k = False"

definition done_ok :: "nat \<Rightarrow> state \<Rightarrow> bool" where
  "done_ok d s =
     ((d < length (done_chans s) \<and> done_chans s ! d)
        \<or> 0 < cnt (closing d) (workers s)
      \<longrightarrow> has_run d s)"

text \<open>
  The call of \<open>DoWait\<close> that made completion channel \<open>d\<close> for its argument \<open>t\<close> owns the
  channel until it returns. \<open>strangers d t\<close> counts the closures around \<open>d\<close>, anywhere in
  the system, whose task is not \<open>t\<close>; \<open>link_ok\<close> says there is none while the owner lives.
\<close>

fun owner :: "nat \<Rightarrow> call \<Rightarrow> bool" where
  "owner d (InDoWait (DoWait_send d') t) = (d' = d)"
| "owner d (InDoWait (DoWait_recv d') t) = (d' = d)"
| "owner d k = False"

fun owns :: "nat \<Rightarrow> task option \<Rightarrow> call \<Rightarrow> bool" where
  "owns d t (InDoWait (DoWait_send d') t') = (d' = d \<and> t' = t)"
| "owns d t (InDoWait (DoWait_recv d') t') = (d' = d \<and> t' = t)"
| "owns d t k = False"

definition own_inv :: "state \<Rightarrow> bool" where
  "own_inv s = (\<forall>d. cnt (owner d) (calls s) \<le> (if d < length (done_chans s) then 1 else 0))"

fun stranger :: "nat \<Rightarrow> task option \<Rightarrow> handler \<Rightarrow> bool" where
  "stranger d t (Wrapped t' d') = (d' = d \<and> t' \<noteq> t)"
| "stranger d t (Plain x) = False"

fun stranger_queued :: "nat \<Rightarrow> task option \<Rightarrow> TaskHandler \<Rightarrow> bool" where
  "stranger_queued d t None = False"
| "stranger_queued d t (Some h) = stranger d t h"

fun stranger_held :: "nat \<Rightarrow> task option \<Rightarrow> worker \<Rightarrow> bool" where
  "stranger_held d t (Check wt) = stranger_queued d t wt"
| "stranger_held d t (Arm h) = stranger d t h"
| "stranger_held d t (Running h wd) = stranger d t h"
| "stranger_held d t k = False"

definition strangers :: "nat \<Rightarrow> task option \<Rightarrow> state \<Rightarrow> nat" where
  "strangers d t s =
     cnt (stranger_queued d t) (buf (task (pool s))) + cnt (stranger_held d t) (workers s)
     + cnt (stranger d t) (executed s)"

definition link_ok :: "nat \<Rightarrow> task option \<Rightarrow> state \<Rightarrow> bool" where
  "link_ok d t s = (0 < cnt (owns d t) (calls s) \<longrightarrow> strangers d t s = 0)"

text \<open>A closure of \<open>DoWait\<close> around a nil task: calling it panics, so none is in the history.\<close>

fun nil_wrapped :: "handler \<Rightarrow> bool" where
  "nil_wrapped (Wrapped None d) = True"
| "nil_wrapped h = False"

subsection \<open>The error slot\<close>

text \<open>
  \<open>errChan\<close> is made with capacity 1 and never closed, so it holds at most one value at
  a time.
\<close>

definition err_inv :: "state \<Rightarrow> bool" where
  "err_inv s =
     (cap (errChan (pool s)) = 1 \<and> \<not> is_closed (errChan (pool s))
      \<and> length (buf (errChan (pool s))) \<le> 1)"

text \<open>A handler that can be called: anything but a closure of \<open>DoWait\<close> around nil.\<close>

fun callable :: "handler \<Rightarrow> bool" where
  "callable (Plain x) = True"
| "callable (Wrapped y d) = (y \<noteq> None)"

section \<open>Evaluation and basic facts\<close>

lemmas prim_defs = set_call_def set_worker_def set_dog_def panic_def once_def enqueue_def
  close_closed_def chan_send_def chan_recv_def chan_close_def SetTimeout_def loop_def

lemmas exec_defs = boot_def New_def make_chan_def client_def prim_defs

lemma run_reachable: "run s as = Some s' \<Longrightarrow> reachable s \<Longrightarrow> reachable s'"
proof (induction as arbitrary: s)
  case Nil
  then show ?case by simp
next
  case (Cons a as)
  then obtain s1 where 1: "step s a = Some s1" and 2: "run s1 as = Some s'"
    by (auto split: option.splits)
  from Cons.prems(2) 1 have "reachable s1" by (rule reachable_step)
  with Cons.IH[OF 2] show ?case .
qed

lemma count_update:
  "i < length xs \<Longrightarrow>
   length (filter P (xs[i := y])) + (if P (xs ! i) then 1 else 0)
     = length (filter P xs) + (if P y then 1 else 0)"
proof (induction xs arbitrary: i)
  case Nil
  then show ?case by simp
next
  case (Cons x xs)
  then show ?case by (cases i) auto
qed

section \<open>Construction\<close>

text \<open>
  C7. For every integer \<open>max\<close>, \<open>New(max)\<close> returns a pool whose worker count is \<open>max\<close> when
  \<open>max >= 1\<close> and 1 otherwise, whose task queue has that clamped count as its capacity,
  whose error slot has capacity 1, whose closed flag is false and whose timeout is zero.
  Both channels are open and empty, the Once has not run and the wait group is at zero.
\<close>

theorem New_clamps:
  "maxWorkersCount (New m) = (if 1 \<le> m then m else 1)
   \<and> cap (task (New m)) = maxWorkersCount (New m)
   \<and> cap (errChan (New m)) = 1
   \<and> closed (New m) = 0
   \<and> timeout (New m) = 0
   \<and> buf (task (New m)) = [] \<and> \<not> is_closed (task (New m))
   \<and> buf (errChan (New m)) = [] \<and> \<not> is_closed (errChan (New m))
   \<and> \<not> start (New m) \<and> wg (New m) = 0"
  by (simp add: New_def make_chan_def Let_def)

section \<open>The closed flag\<close>

lemma Do_closed: "Do c pc fn s = Some s' \<Longrightarrow> closed (pool s') = closed (pool s)"
  by (cases pc) (auto simp: prim_defs split: if_splits)

lemma DoWait_closed: "DoWait c pc fn s = Some s' \<Longrightarrow> closed (pool s') = closed (pool s)"
  by (cases pc) (auto simp: prim_defs split: if_splits)

lemma Wait_closed: "Wait c pc s = Some s' \<Longrightarrow> closed (pool s') = closed (pool s)"
  by (cases pc) (auto simp: prim_defs split: if_splits option.splits list.splits)

lemma client_closed: "client c s = Some s' \<Longrightarrow> closed (pool s') = closed (pool s)"
  by (auto simp: client_def Do_closed DoWait_closed Wait_closed split: if_splits call.splits)

lemma loop_closed: "loop s = Some s' \<Longrightarrow> closed (pool s') = closed (pool s)"
  by (auto simp: loop_def split: option.splits if_splits)

lemma worker_closed:
  "loop_worker w k s = Some s' \<Longrightarrow> closed (pool s') = closed (pool s) \<or> closed (pool s') = 1"
  by (cases k) (auto simp: prim_defs split: if_splits option.splits list.splits handler.splits)

lemma timer_closed: "loop_timer k d s = Some s' \<Longrightarrow> closed (pool s') = closed (pool s)"
  by (cases d) (auto simp: prim_defs)

lemma watchdog_closed:
  "loop_watchdog k d s = Some s' \<Longrightarrow> closed (pool s') = closed (pool s) \<or> closed (pool s') = 1"
  by (cases d) (auto simp: prim_defs split: if_splits)

lemma step_closed:
  "step s a = Some s' \<Longrightarrow> closed (pool s') = closed (pool s) \<or> closed (pool s') = 1"
  by (cases a)
     (auto simp: SetTimeout_def split: if_splits
           dest: client_closed loop_closed worker_closed timer_closed watchdog_closed)

lemma run_closed:
  "run s as = Some s' \<Longrightarrow> closed (pool s') = closed (pool s) \<or> closed (pool s') = 1"
proof (induction as arbitrary: s)
  case Nil
  then show ?case by simp
next
  case (Cons a as)
  then obtain s1 where 1: "step s a = Some s1" and 2: "run s1 as = Some s'"
    by (auto split: option.splits)
  from step_closed[OF 1] Cons.IH[OF 2] show ?case by auto
qed

text \<open>
  C8. The closed flag is monotonic: it starts at 0 (false) in the pool that \<open>New\<close> returns, a
  step of any goroutine leaves it as it was or stores 1 (true), and so does every run; once
  it is 1, it is 1 in every later state.
\<close>

theorem closed_flag_monotonic:
  assumes "run s as = Some s'"
  shows "closed (pool (boot m)) = 0
     \<and> (closed (pool s') = closed (pool s) \<or> closed (pool s') = 1)
     \<and> (closed (pool s) = 1 \<longrightarrow> closed (pool s') = 1)"
  using run_closed[OF assms] by (auto simp: boot_def New_def Let_def)

theorem closed_flag_monotonic_witness:
  "\<exists>s s'. run (boot 1) [Call_Do (Some (Task 2 (Some (TaskError 7)))), Client 0, Client 0, Client 0,
        Spawner, Work 0, Work 0, Work 0, Work 0, Work 0, Work 0, Work 0] = Some s
     \<and> run s [Call_Do (Some (Task 1 None)), Client 1, Client 1, Call_Wait, Client 2, Work 0] = Some s'
     \<and> closed (pool (boot 1)) = 0 \<and> closed (pool s) = 1 \<and> closed (pool s') = 1"
proof -
  let ?tr = "[Call_Do (Some (Task 2 (Some (TaskError 7)))), Client 0, Client 0, Client 0,
        Spawner, Work 0, Work 0, Work 0, Work 0, Work 0, Work 0, Work 0]"
  let ?tr' = "[Call_Do (Some (Task 1 None)), Client 1, Client 1, Call_Wait, Client 2, Work 0]"
  let ?s = "the (run (boot 1) ?tr)"
  let ?s' = "the (run ?s ?tr')"
  have 1: "run (boot 1) ?tr = Some ?s" and c: "closed (pool ?s) = 1"
    by (simp_all add: exec_defs)
  have 2: "run ?s ?tr' = Some ?s'"
    by (simp add: exec_defs)
  from closed_flag_monotonic[OF 2, of 1] c 1 2 show ?thesis by blast
qed

section \<open>Submission to a closed pool\<close>

text \<open>
  C3. A task submitted through \<open>Do\<close> or \<open>DoWait\<close> while the closed flag is true is dropped.
  Run without interruption from a state whose flag is 1, the whole call (the Once, then the
  check) returns and leaves the state as the Once alone would, which touches neither the
  queue, the error slot, the history of executed handlers nor the completion channels. Under
  any interleaving, the check of lines 44 and 58 on a flag that is 1 changes nothing but the
  call itself, which has returned, holds the task no more and takes no further step.
\<close>

theorem closed_submission_dropped:
  assumes "closed (pool s) = 1" and "\<not> panicked s"
  shows "run s [Call_Do fn, Client (length (calls s)), Client (length (calls s))]
           = Some ((once s)\<lparr>calls := calls s @ [Returned]\<rparr>)
     \<and> run s [Call_DoWait fn, Client (length (calls s)), Client (length (calls s))]
           = Some ((once s)\<lparr>calls := calls s @ [Returned]\<rparr>)
     \<and> task (pool (once s)) = task (pool s) \<and> errChan (pool (once s)) = errChan (pool s)
     \<and> executed (once s) = executed s \<and> done_chans (once s) = done_chans s
     \<and> (\<forall>c. c < length (calls s)
            \<and> (calls s ! c = InDo Do_check fn \<or> calls s ! c = InDoWait DoWait_check fn)
          \<longrightarrow> step s (Client c) = Some (s\<lparr>calls := (calls s)[c := Returned]\<rparr>)
              \<and> step (s\<lparr>calls := (calls s)[c := Returned]\<rparr>) (Client c) = None)"
  using assms by (auto simp: client_def set_call_def once_def)

theorem closed_submission_dropped_witness:
  "\<exists>s. run (boot 1) [Call_Do (Some (Task 2 (Some (TaskError 7)))), Client 0, Client 0, Client 0,
        Spawner, Work 0, Work 0, Work 0, Work 0, Work 0, Work 0, Work 0,
        Call_DoWait (Some (Task 1 None)), Client 1] = Some s
     \<and> closed (pool s) = 1 \<and> \<not> panicked s \<and> 1 < length (calls s)
     \<and> calls s ! 1 = InDoWait DoWait_check (Some (Task 1 None))
     \<and> step s (Client 1) = Some (s\<lparr>calls := (calls s)[1 := Returned]\<rparr>)
     \<and> run s [Call_Do (Some (Task 1 None)), Client (length (calls s)), Client (length (calls s))]
           = Some ((once s)\<lparr>calls := calls s @ [Returned]\<rparr>)
     \<and> buf (task (pool (once s))) = []"
proof -
  let ?tr = "[Call_Do (Some (Task 2 (Some (TaskError 7)))), Client 0, Client 0, Client 0,
        Spawner, Work 0, Work 0, Work 0, Work 0, Work 0, Work 0, Work 0,
        Call_DoWait (Some (Task 1 None)), Client 1]"
  let ?s = "the (run (boot 1) ?tr)"
  have 1: "run (boot 1) ?tr = Some ?s"
    and 2: "closed (pool ?s) = 1" "\<not> panicked ?s"
    and 3: "1 < length (calls ?s)" "calls ?s ! 1 = InDoWait DoWait_check (Some (Task 1 None))"
      "buf (task (pool ?s)) = []"
    by (simp_all add: exec_defs)
  from closed_submission_dropped[OF 2, of "Some (Task 1 None)"] 1 2 3
  show ?thesis by (intro exI[of _ ?s]) simp
qed

section \<open>Discarding in the worker\<close>

text \<open>
  C4. A worker that has received a value from the queue and finds it nil, or finds the closed
  flag at 1 (line 78), goes back to the receive of line 77 and nothing else in the state
  changes: the value is not run, not put back in the queue, no error is recorded, and the
  worker has not exited.
\<close>

theorem worker_discards:
  assumes "\<not> panicked s" and "w < length (workers s)" and "workers s ! w = Check wt"
    and "wt = None \<or> closed (pool s) = 1"
  shows "step s (Work w) = Some (s\<lparr>workers := (workers s)[w := Receive]\<rparr>)"
  using assms by (auto simp: set_worker_def split: option.splits)

theorem worker_discards_witness:
  "\<exists>s s'. run (boot 1) [Call_Do (Some (Task 2 (Some (TaskError 7)))), Client 0, Client 0, Client 0,
        Spawner, Work 0, Work 0, Work 0, Call_Do (Some (Task 1 None)), Client 1, Client 1,
        Client 1, Work 0, Work 0, Work 0, Work 0, Work 0] = Some s
     \<and> \<not> panicked s \<and> workers s ! 0 = Check (Some (Plain (Task 1 None))) \<and> closed (pool s) = 1
     \<and> step s (Work 0) = Some (s\<lparr>workers := (workers s)[0 := Receive]\<rparr>)
     \<and> run (boot 1) [Call_Do None, Client 0, Client 0, Client 0, Spawner, Work 0] = Some s'
     \<and> \<not> panicked s' \<and> workers s' ! 0 = Check None \<and> closed (pool s') = 0
     \<and> step s' (Work 0) = Some (s'\<lparr>workers := (workers s')[0 := Receive]\<rparr>)"
proof -
  let ?tr = "[Call_Do (Some (Task 2 (Some (TaskError 7)))), Client 0, Client 0, Client 0,
        Spawner, Work 0, Work 0, Work 0, Call_Do (Some (Task 1 None)), Client 1, Client 1,
        Client 1, Work 0, Work 0, Work 0, Work 0, Work 0]"
  let ?tr' = "[Call_Do None, Client 0, Client 0, Client 0, Spawner, Work 0]"
  let ?s = "the (run (boot 1) ?tr)"
  let ?s' = "the (run (boot 1) ?tr')"
  have 1: "run (boot 1) ?tr = Some ?s" and 2: "\<not> panicked ?s" "0 < length (workers ?s)"
    "workers ?s ! 0 = Check (Some (Plain (Task 1 None)))" and 3: "closed (pool ?s) = 1"
    by (simp_all add: exec_defs)
  have 4: "run (boot 1) ?tr' = Some ?s'" and 5: "\<not> panicked ?s'" "0 < length (workers ?s')"
    "workers ?s' ! 0 = Check None" and 6: "closed (pool ?s') = 0"
    by (simp_all add: exec_defs)
  from worker_discards[OF 2 disjI2[OF 3]] worker_discards[OF 5 disjI1[OF refl]] 1 2 3 4 5 6
  show ?thesis by blast
qed

section \<open>Sending after Wait has closed the queue\<close>

text \<open>
  C9. A call of \<open>Do\<close> or \<open>DoWait\<close> that has passed its check of the closed flag and reaches
  its send (lines 48 and 63) after \<open>Wait\<close> has closed the task channel sends on a closed
  channel: the program panics. The schedule of the witness reaches such a state from a
  fresh pool.
\<close>

theorem send_after_close_panics:
  assumes "\<not> panicked s" and "c < length (calls s)" and "is_closed (task (pool s))"
    and "calls s ! c = InDo Do_send fn \<or> calls s ! c = InDoWait (DoWait_send d) fn"
  shows "step s (Client c) = Some (s\<lparr>panicked := True\<rparr>)"
  using assms by (auto simp: client_def enqueue_def chan_send_def panic_def)

theorem send_after_close_panics_witness:
  "\<exists>s. run (boot 1) [Call_Do (Some (Task 1 None)), Client 0, Client 0, Call_Wait, Client 1] = Some s
     \<and> \<not> panicked s \<and> 0 < length (calls s) \<and> is_closed (task (pool s))
     \<and> calls s ! 0 = InDo Do_send (Some (Task 1 None))
     \<and> calls s ! 1 = InWait Wait_join
     \<and> step s (Client 0) = Some (s\<lparr>panicked := True\<rparr>)"
proof -
  obtain s where 1: "run (boot 1) [Call_Do (Some (Task 1 None)), Client 0, Client 0, Call_Wait, Client 1] = Some s"
    and 2: "\<not> panicked s" "0 < length (calls s)" "is_closed (task (pool s))"
      "calls s ! 0 = InDo Do_send (Some (Task 1 None))" "calls s ! 1 = InWait Wait_join"
    by (simp add: exec_defs)
  from send_after_close_panics[OF 2(1) 2(2) 2(3) disjI1[OF 2(4)]] 1 2 show ?thesis by blast
qed

section \<open>Wait\<close>

lemma live_update:
  "w < length ws \<Longrightarrow>
   int (live (ws[w := k])) = int (live ws) - (if ws ! w \<noteq> Exited then 1 else 0)
      + (if k \<noteq> Exited then 1 else 0)"
  using count_update[of w ws "\<lambda>w. w \<noteq> Exited" k] by (auto simp: live_def split: if_splits)

lemma live_append: "live (ws @ [k]) = live ws + (if k \<noteq> Exited then 1 else 0)"
  by (simp add: live_def)

lemma live_zero: "live ws = 0 \<longleftrightarrow> (\<forall>w \<in> set ws. w = Exited)"
  by (auto simp: live_def filter_empty_conv)

lemma wg_inv_boot: "wg_inv (boot m)"
  by (simp add: wg_inv_def wg_ok_def to_start_def boot_def New_def make_chan_def live_def Let_def)

lemma wg_inv_once: "wg_inv s \<Longrightarrow> wg_inv (once s)"
  by (auto simp: wg_inv_def wg_ok_def to_start_def once_def live_def split: option.splits if_splits)

lemma wg_inv_set_call: "wg_inv (set_call c k s) = wg_inv s"
  by (simp add: wg_inv_def set_call_def)

lemma wg_inv_Do: "wg_inv s \<Longrightarrow> Do c pc fn s = Some s' \<Longrightarrow> wg_inv s'"
  by (cases pc) (auto simp: prim_defs wg_inv_def wg_ok_def to_start_def
      split: if_splits option.splits)

lemma wg_inv_DoWait: "wg_inv s \<Longrightarrow> DoWait c pc fn s = Some s' \<Longrightarrow> wg_inv s'"
  by (cases pc) (auto simp: prim_defs wg_inv_def wg_ok_def to_start_def
      split: if_splits option.splits)

lemma wg_inv_Wait: "wg_inv s \<Longrightarrow> Wait c pc s = Some s' \<Longrightarrow> wg_inv s'"
  by (cases pc) (auto simp: prim_defs wg_inv_def split: if_splits list.splits)

lemma wg_inv_client: "wg_inv s \<Longrightarrow> client c s = Some s' \<Longrightarrow> wg_inv s'"
  by (auto simp: client_def split: if_splits call.splits dest: wg_inv_Do wg_inv_DoWait wg_inv_Wait)

lemma wg_inv_loop: "wg_inv s \<Longrightarrow> loop s = Some s' \<Longrightarrow> wg_inv s'"
  by (auto simp: wg_inv_def wg_ok_def to_start_def loop_def live_append split: option.splits if_splits)

lemma wg_inv_worker:
  "wg_inv s \<Longrightarrow> w < length (workers s) \<Longrightarrow> loop_worker w (workers s ! w) s = Some s' \<Longrightarrow> wg_inv s'"
  by (cases "workers s ! w")
     (auto simp: wg_inv_def wg_ok_def live_update prim_defs
           split: if_splits option.splits list.splits handler.splits)

lemma wg_inv_timer: "wg_inv s \<Longrightarrow> loop_timer k d s = Some s' \<Longrightarrow> wg_inv s'"
  by (cases d) (auto simp: wg_inv_def prim_defs)

lemma wg_inv_watchdog: "wg_inv s \<Longrightarrow> loop_watchdog k d s = Some s' \<Longrightarrow> wg_inv s'"
  by (cases d) (auto simp: wg_inv_def prim_defs split: if_splits)

lemma wg_inv_step: "wg_inv s \<Longrightarrow> step s a = Some s' \<Longrightarrow> wg_inv s'"
proof (cases a)
  case (Client c)
  assume "wg_inv s" "step s a = Some s'"
  with Client show ?thesis by (auto split: if_splits dest: wg_inv_client)
next
  case Spawner
  assume "wg_inv s" "step s a = Some s'"
  with Spawner show ?thesis by (auto split: if_splits dest: wg_inv_loop)
next
  case (Work w)
  assume "wg_inv s" "step s a = Some s'"
  with Work show ?thesis by (auto split: if_splits dest: wg_inv_worker)
next
  case (Timer k)
  assume "wg_inv s" "step s a = Some s'"
  with Timer show ?thesis by (auto split: if_splits dest: wg_inv_timer)
next
  case (Watch k)
  assume "wg_inv s" "step s a = Some s'"
  with Watch show ?thesis by (auto split: if_splits dest: wg_inv_watchdog)
qed (auto simp: wg_inv_def SetTimeout_def split: if_splits)

lemma reachable_wg_inv: "reachable s \<Longrightarrow> wg_inv s"
  by (induction rule: reachable.induct) (auto intro: wg_inv_boot wg_inv_step)

lemma wg_zero:
  assumes "wg_inv s"
  shows "wg (pool s) = 0 \<longleftrightarrow> (\<forall>w \<in> set (workers s). w = Exited) \<and> pending s = 0"
proof -
  from assms have "0 \<le> pending s" and "wg (pool s) = pending s + int (live (workers s))"
    by (auto simp: wg_inv_def wg_ok_def pending_def to_start_def split: option.splits)
  then show ?thesis using live_zero[of "workers s"] by auto
qed

lemma all_started:
  assumes "wg_inv s" and "pending s = 0" and "start (pool s)"
  shows "int (length (workers s)) = maxWorkersCount (pool s)"
  using assms by (auto simp: wg_inv_def wg_ok_def pending_def to_start_def split: option.splits)

text \<open>
  C1. \<open>Wait\<close> closes the task queue, blocks until every worker has terminated, and then
  returns what the error slot holds, or nil when it is empty. In every reachable state:
  the step of line 117 on an open queue closes it and nothing else; the step of line 118
  is enabled exactly when no worker is left running and the goroutine of \<open>loop\<close> has none
  left to start (the counter of the wait group is the number of such workers), and then,
  if startup happened at all, exactly \<open>maxWorkersCount\<close> workers exist and all have exited;
  the select of lines 119-124 is never blocked and returns the first value of the slot,
  taking it out, or nil.
\<close>

theorem Wait_joins_then_reads_slot:
  assumes "reachable s" and "\<not> panicked s" and "c < length (calls s)"
  shows "(calls s ! c = InWait Wait_close \<and> \<not> is_closed (task (pool s)) \<longrightarrow>
            step s (Client c) =
              Some (s\<lparr>pool := (pool s)\<lparr>task := (task (pool s))\<lparr>is_closed := True\<rparr>\<rparr>,
                      calls := (calls s)[c := InWait Wait_join]\<rparr>))
     \<and> (calls s ! c = InWait Wait_join \<longrightarrow>
            step s (Client c) =
              (if (\<forall>w \<in> set (workers s). w = Exited) \<and> pending s = 0
               then Some (s\<lparr>calls := (calls s)[c := InWait Wait_select]\<rparr>) else None)
            \<and> ((\<forall>w \<in> set (workers s). w = Exited) \<and> pending s = 0 \<and> start (pool s)
                 \<longrightarrow> int (length (workers s)) = maxWorkersCount (pool s)))
     \<and> (calls s ! c = InWait Wait_select \<longrightarrow>
            step s (Client c) =
              Some (case buf (errChan (pool s)) of
                      [] \<Rightarrow> s\<lparr>calls := (calls s)[c := WaitReturned None]\<rparr>
                    | e # es \<Rightarrow> s\<lparr>pool := (pool s)\<lparr>errChan := (errChan (pool s))\<lparr>buf := es\<rparr>\<rparr>,
                                  calls := (calls s)[c := WaitReturned (Some e)]\<rparr>))"
proof -
  have inv: "wg_inv s" using assms(1) by (rule reachable_wg_inv)
  have 1: "calls s ! c = InWait Wait_close \<and> \<not> is_closed (task (pool s)) \<longrightarrow>
            step s (Client c) =
              Some (s\<lparr>pool := (pool s)\<lparr>task := (task (pool s))\<lparr>is_closed := True\<rparr>\<rparr>,
                      calls := (calls s)[c := InWait Wait_join]\<rparr>)"
    using assms(2,3) by (simp add: client_def chan_close_def set_call_def)
  have 2: "calls s ! c = InWait Wait_join \<longrightarrow>
            step s (Client c) =
              (if (\<forall>w \<in> set (workers s). w = Exited) \<and> pending s = 0
               then Some (s\<lparr>calls := (calls s)[c := InWait Wait_select]\<rparr>) else None)"
    using assms(2,3) wg_zero[OF inv] by (simp add: client_def set_call_def)
  have 3: "(\<forall>w \<in> set (workers s). w = Exited) \<and> pending s = 0 \<and> start (pool s)
                 \<longrightarrow> int (length (workers s)) = maxWorkersCount (pool s)"
    using all_started[OF inv] by blast
  have 4: "calls s ! c = InWait Wait_select \<longrightarrow>
            step s (Client c) =
              Some (case buf (errChan (pool s)) of
                      [] \<Rightarrow> s\<lparr>calls := (calls s)[c := WaitReturned None]\<rparr>
                    | e # es \<Rightarrow> s\<lparr>pool := (pool s)\<lparr>errChan := (errChan (pool s))\<lparr>buf := es\<rparr>\<rparr>,
                                  calls := (calls s)[c := WaitReturned (Some e)]\<rparr>)"
    using assms(2,3) by (simp add: client_def chan_recv_def set_call_def split: list.splits)
  from 1 2 3 4 show ?thesis by blast
qed

theorem Wait_joins_then_reads_slot_witness:
  "\<exists>s1 s2 s3.
      run (boot 2) [Call_Do (Some (Task 2 (Some (TaskError 7)))), Client 0, Client 0, Client 0,
        Spawner, Spawner, Spawner, Work 0, Work 0, Work 0, Work 0, Work 0, Work 0, Work 0,
        Call_Wait, Client 1] = Some s1
    \<and> calls s1 ! 1 = InWait Wait_join \<and> is_closed (task (pool s1))
    \<and> workers s1 = [Receive, Receive] \<and> step s1 (Client 1) = None
    \<and> run s1 [Work 0, Work 1] = Some s2
    \<and> workers s2 = [Exited, Exited] \<and> step s2 (Client 1) = Some s3
    \<and> calls s3 ! 1 = InWait Wait_select \<and> buf (errChan (pool s3)) = [TaskError 7]
    \<and> step s3 (Client 1) =
         Some (s3\<lparr>pool := (pool s3)\<lparr>errChan := (errChan (pool s3))\<lparr>buf := []\<rparr>\<rparr>,
                  calls := (calls s3)[1 := WaitReturned (Some (TaskError 7))]\<rparr>)"
proof -
  define p where "p = \<lparr>maxWorkersCount = 2, task = \<lparr>buf = [], cap = 2, is_closed = True\<rparr>,
        errChan = \<lparr>buf = [TaskError 7], cap = 1, is_closed = False\<rparr>,
        closed = 1, timeout = 0, start = True, wg = 2\<rparr>"
  define s1 where "s1 = \<lparr>pool = p, calls = [Returned, InWait Wait_join], looper = None,
     workers = [Receive, Receive], dogs = [], done_chans = [],
     executed = [Plain (Task 2 (Some (TaskError 7)))],
     logged = [TaskError 7], panicked = False\<rparr>"
  define s2 where "s2 = s1\<lparr>pool := p\<lparr>wg := 0\<rparr>, workers := [Exited, Exited]\<rparr>"
  define s3 where "s3 = s2\<lparr>calls := [Returned, InWait Wait_select]\<rparr>"
  have r1: "run (boot 2) [Call_Do (Some (Task 2 (Some (TaskError 7)))), Client 0, Client 0,
        Client 0, Spawner, Spawner, Spawner, Work 0, Work 0, Work 0, Work 0, Work 0, Work 0,
        Work 0, Call_Wait, Client 1] = Some s1"
    by (simp add: exec_defs s1_def p_def)
  have r2: "run s1 [Work 0, Work 1] = Some s2"
    by (simp add: exec_defs s1_def s2_def p_def)
  have reach1: "reachable s1" by (rule run_reachable[OF r1 reachable_boot])
  have reach2: "reachable s2" by (rule run_reachable[OF r2 reach1])
  have f1: "\<not> panicked s1" "1 < length (calls s1)" "calls s1 ! 1 = InWait Wait_join"
      "is_closed (task (pool s1))" "workers s1 = [Receive, Receive]"
    by (simp_all add: s1_def p_def)
  have f2: "\<not> panicked s2" "1 < length (calls s2)" "calls s2 ! 1 = InWait Wait_join"
      "workers s2 = [Exited, Exited]" "pending s2 = 0"
    by (simp_all add: s2_def s1_def p_def pending_def to_start_def)
  have a: "step s1 (Client 1) = None"
    using Wait_joins_then_reads_slot[OF reach1 f1(1,2)] f1 by simp
  have b: "step s2 (Client 1) = Some s3"
    using Wait_joins_then_reads_slot[OF reach2 f2(1,2)] f2 by (simp add: s3_def s2_def s1_def)
  have reach3: "reachable s3" by (rule reachable_step[OF reach2 b])
  have f3: "\<not> panicked s3" "1 < length (calls s3)" "calls s3 ! 1 = InWait Wait_select"
      "buf (errChan (pool s3)) = [TaskError 7]"
    by (simp_all add: s3_def s2_def s1_def p_def)
  have c: "step s3 (Client 1) =
         Some (s3\<lparr>pool := (pool s3)\<lparr>errChan := (errChan (pool s3))\<lparr>buf := []\<rparr>\<rparr>,
                  calls := (calls s3)[1 := WaitReturned (Some (TaskError 7))]\<rparr>)"
    using Wait_joins_then_reads_slot[OF reach3 f3(1,2)] f3 by simp
  from r1 f1(3,4,5) a r2 f2(4) b f3(3,4) c show ?thesis by blast
qed

section \<open>The closure of DoWait and its completion channel\<close>

lemma filter_update_length:
  "i < length xs \<Longrightarrow>
   length (filter P (xs[i := y]))
     = length (filter P xs) + (if P y then 1 else 0) - (if P (xs ! i) then 1 else 0)"
  using count_update[of i xs P y] by (auto split: if_splits)

lemma filter_pos: "i < length xs \<Longrightarrow> P (xs ! i) \<Longrightarrow> 0 < length (filter P xs)"
  by (metis filter_empty_conv length_greater_0_conv nth_mem)

lemma tokens_once: "tokens d (once s) = tokens d s"
  by (simp add: tokens_def once_def)

lemma done_once: "done_chans (once s) = done_chans s"
  by (simp add: once_def)

lemma calls_once: "calls (once s) = calls s"
  by (simp add: once_def)

lemma tokens_Do:
  assumes "c < length (calls s)" and "calls s ! c = InDo pc fn" and "Do c pc fn s = Some s'"
  shows "tokens d s' = tokens d s \<and> done_chans s' = done_chans s"
  using assms
  by (cases pc; cases fn)
     (auto simp: tokens_def prim_defs filter_update_length split: if_splits)

lemma tokens_DoWait:
  assumes "c < length (calls s)" and "calls s ! c = InDoWait pc t" and "DoWait c pc t s = Some s'"
  shows "(tokens d s' = tokens d s \<and> done_chans s' = done_chans s)
       \<or> (pc = DoWait_check \<and> done_chans s' = done_chans s @ [False]
          \<and> tokens d s' = tokens d s + (if d = length (done_chans s) then 1 else 0))"
  using assms filter_pos[of c "calls s" "sending d"]
  by (cases pc)
     (auto simp: tokens_def prim_defs filter_update_length split: if_splits)

lemma tokens_Wait:
  assumes "c < length (calls s)" and "calls s ! c = InWait pc" and "Wait c pc s = Some s'"
  shows "tokens d s' = tokens d s \<and> done_chans s' = done_chans s"
  using assms
  by (cases pc)
     (auto simp: tokens_def prim_defs filter_update_length split: if_splits list.splits)

lemma tokens_client:
  assumes "client c s = Some s'"
  shows "(tokens d s' = tokens d s \<and> done_chans s' = done_chans s)
       \<or> (done_chans s' = done_chans s @ [False]
          \<and> tokens d s' = tokens d s + (if d = length (done_chans s) then 1 else 0))"
proof -
  from assms have c: "c < length (calls s)" by (auto simp: client_def split: if_splits)
  show ?thesis
  proof (cases "calls s ! c")
    case (InDo pc fn)
    with assms c tokens_Do[OF c InDo, of s' d] show ?thesis by (simp add: client_def)
  next
    case (InDoWait pc t)
    with assms c tokens_DoWait[OF c InDoWait, of s' d] show ?thesis by (auto simp: client_def)
  next
    case (InWait pc)
    with assms c tokens_Wait[OF c InWait, of s' d] show ?thesis by (simp add: client_def)
  qed (use assms c in \<open>auto simp: client_def\<close>)
qed

lemma tokens_loop:
  assumes "loop s = Some s'"
  shows "tokens d s' = tokens d s \<and> done_chans s' = done_chans s"
  using assms by (auto simp: loop_def tokens_def split: option.splits if_splits)

lemma tokens_worker:
  assumes "w < length (workers s)" and "loop_worker w (workers s ! w) s = Some s'"
  shows "tokens d s' \<le> tokens d s \<and> length (done_chans s') = length (done_chans s)"
  using assms filter_pos[of w "workers s" "holding d"]
  by (cases "workers s ! w")
     (auto simp: tokens_def prim_defs filter_update_length
           split: if_splits option.splits list.splits handler.splits)

lemma tokens_timer:
  assumes "loop_timer k x s = Some s'"
  shows "tokens d s' = tokens d s \<and> done_chans s' = done_chans s"
  using assms by (cases x) (auto simp: tokens_def prim_defs)

lemma tokens_watchdog:
  assumes "loop_watchdog k x s = Some s'"
  shows "tokens d s' = tokens d s \<and> done_chans s' = done_chans s"
  using assms by (cases x) (auto simp: tokens_def prim_defs split: if_splits)

lemma tokens_step:
  assumes "step s a = Some s'"
  shows "(tokens d s' \<le> tokens d s \<and> length (done_chans s') = length (done_chans s))
       \<or> (length (done_chans s') = Suc (length (done_chans s))
          \<and> tokens d s' = tokens d s + (if d = length (done_chans s) then 1 else 0))"
proof (cases a)
  case (Client c)
  with assms tokens_client[of c s s' d] show ?thesis by (auto split: if_splits)
next
  case Spawner
  with assms tokens_loop[of s s' d] show ?thesis by (auto split: if_splits)
next
  case (Work w)
  with assms tokens_worker[of w s s' d] show ?thesis by (auto split: if_splits)
next
  case (Timer k)
  with assms tokens_timer[of k "dogs s ! k" s s' d] show ?thesis by (auto split: if_splits)
next
  case (Watch k)
  with assms tokens_watchdog[of k "dogs s ! k" s s' d] show ?thesis by (auto split: if_splits)
qed (use assms in \<open>auto simp: tokens_def SetTimeout_def split: if_splits\<close>)

lemma tok_inv_boot: "tok_inv (boot m)"
  by (simp add: tok_inv_def tokens_def boot_def New_def make_chan_def Let_def)

lemma tok_inv_step:
  assumes "tok_inv s" and "step s a = Some s'"
  shows "tok_inv s'"
  unfolding tok_inv_def
proof
  fix d
  from assms(1) have b: "tokens d s \<le> (if d < length (done_chans s) then 1 else 0)"
    by (simp add: tok_inv_def)
  from tokens_step[OF assms(2), of d] b
  show "tokens d s' \<le> (if d < length (done_chans s') then 1 else 0)"
    by (auto split: if_splits)
qed

lemma reachable_tok_inv: "reachable s \<Longrightarrow> tok_inv s"
  by (induction rule: reachable.induct) (auto intro: tok_inv_boot tok_inv_step)

lemma cnt_simps [simp]:
  "cnt P [] = 0"
  "cnt P (x # xs) = (if P x then Suc (cnt P xs) else cnt P xs)"
  "cnt P (xs @ ys) = cnt P xs + cnt P ys"
  by (simp_all add: cnt_def)

lemma cnt_update:
  "i < length xs \<Longrightarrow>
   cnt P (xs[i := y]) = cnt P xs + (if P y then 1 else 0) - (if P (xs ! i) then 1 else 0)"
  by (simp add: cnt_def filter_update_length)

lemma cnt_pos: "i < length xs \<Longrightarrow> P (xs ! i) \<Longrightarrow> 0 < cnt P xs"
  unfolding cnt_def by (rule filter_pos)

lemma has_run_tokens: "has_run d s \<Longrightarrow> 0 < tokens d s"
  by (auto simp: has_run_def tokens_def cnt_def)

lemma done_ok_boot: "done_ok d (boot m)"
  by (simp add: done_ok_def boot_def)

lemma done_ok_frame:
  assumes "done_ok d s" and "done_chans s' = done_chans s \<or> done_chans s' = done_chans s @ [False]"
    and "workers s' = workers s" and "executed s' = executed s"
  shows "done_ok d s'"
  using assms by (auto simp: done_ok_def has_run_def nth_append split: if_splits)

lemma frame_Do:
  "Do c pc fn s = Some s' \<Longrightarrow>
   done_chans s' = done_chans s \<and> workers s' = workers s \<and> executed s' = executed s"
  by (cases pc) (auto simp: prim_defs split: if_splits)

lemma frame_DoWait:
  "DoWait c pc fn s = Some s' \<Longrightarrow>
   (done_chans s' = done_chans s \<or> done_chans s' = done_chans s @ [False])
   \<and> workers s' = workers s \<and> executed s' = executed s"
  by (cases pc) (auto simp: prim_defs split: if_splits)

lemma frame_Wait:
  "Wait c pc s = Some s' \<Longrightarrow>
   done_chans s' = done_chans s \<and> workers s' = workers s \<and> executed s' = executed s"
  by (cases pc) (auto simp: prim_defs split: if_splits list.splits)

lemma frame_client:
  "client c s = Some s' \<Longrightarrow>
   (done_chans s' = done_chans s \<or> done_chans s' = done_chans s @ [False])
   \<and> workers s' = workers s \<and> executed s' = executed s"
  by (auto simp: client_def split: if_splits call.splits dest: frame_Do frame_DoWait frame_Wait)

lemma frame_timer:
  "loop_timer k x s = Some s' \<Longrightarrow>
   done_chans s' = done_chans s \<and> workers s' = workers s \<and> executed s' = executed s
   \<and> calls s' = calls s"
  by (cases x) (auto simp: prim_defs)

lemma frame_watchdog:
  "loop_watchdog k x s = Some s' \<Longrightarrow>
   done_chans s' = done_chans s \<and> workers s' = workers s \<and> executed s' = executed s
   \<and> calls s' = calls s"
  by (cases x) (auto simp: prim_defs split: if_splits)

lemma done_ok_loop: "done_ok d s \<Longrightarrow> loop s = Some s' \<Longrightarrow> done_ok d s'"
  by (auto simp: loop_def done_ok_def has_run_def split: option.splits if_splits)

lemma done_ok_worker:
  assumes "done_ok d s" and "w < length (workers s)"
    and "loop_worker w (workers s ! w) s = Some s'"
  shows "done_ok d s'"
  using assms cnt_pos[of w "workers s" "closing d"]
  by (cases "workers s ! w")
     (auto simp: done_ok_def has_run_def prim_defs cnt_update nth_list_update
           split: if_splits option.splits list.splits handler.splits)

lemma done_ok_step: "done_ok d s \<Longrightarrow> step s a = Some s' \<Longrightarrow> done_ok d s'"
proof (cases a)
  case (Client c)
  assume "done_ok d s" "step s a = Some s'"
  with Client frame_client[of c s s'] show ?thesis
    by (auto split: if_splits intro: done_ok_frame)
next
  case Spawner
  assume "done_ok d s" "step s a = Some s'"
  with Spawner show ?thesis by (auto split: if_splits dest: done_ok_loop)
next
  case (Work w)
  assume "done_ok d s" "step s a = Some s'"
  with Work show ?thesis by (auto split: if_splits dest: done_ok_worker)
next
  case (Timer k)
  assume "done_ok d s" "step s a = Some s'"
  with Timer frame_timer[of k "dogs s ! k" s s'] show ?thesis
    by (auto split: if_splits intro: done_ok_frame)
next
  case (Watch k)
  assume "done_ok d s" "step s a = Some s'"
  with Watch frame_watchdog[of k "dogs s ! k" s s'] show ?thesis
    by (auto split: if_splits intro: done_ok_frame)
qed (auto simp: done_ok_def has_run_def split: if_splits)

lemma reachable_done_ok: "reachable s \<Longrightarrow> done_ok d s"
  by (induction rule: reachable.induct) (auto intro: done_ok_boot done_ok_step)

lemma calls_Do:
  "Do c pc fn s = Some s' \<Longrightarrow> c' \<noteq> c \<Longrightarrow>
   length (calls s') = length (calls s) \<and> calls s' ! c' = calls s ! c'"
  by (cases pc) (auto simp: prim_defs split: if_splits)

lemma calls_DoWait:
  "DoWait c pc fn s = Some s' \<Longrightarrow> c' \<noteq> c \<Longrightarrow>
   length (calls s') = length (calls s) \<and> calls s' ! c' = calls s ! c'"
  by (cases pc) (auto simp: prim_defs split: if_splits)

lemma calls_Wait:
  "Wait c pc s = Some s' \<Longrightarrow> c' \<noteq> c \<Longrightarrow>
   length (calls s') = length (calls s) \<and> calls s' ! c' = calls s ! c'"
  by (cases pc) (auto simp: prim_defs split: if_splits list.splits)

lemma calls_client:
  "client c s = Some s' \<Longrightarrow> c' \<noteq> c \<Longrightarrow>
   length (calls s') = length (calls s) \<and> calls s' ! c' = calls s ! c'"
  by (auto simp: client_def split: if_splits call.splits dest: calls_Do calls_DoWait calls_Wait)

lemma calls_loop: "loop s = Some s' \<Longrightarrow> calls s' = calls s"
  by (auto simp: loop_def split: option.splits if_splits)

lemma calls_worker: "loop_worker w k s = Some s' \<Longrightarrow> calls s' = calls s"
  by (cases k) (auto simp: prim_defs split: if_splits option.splits list.splits handler.splits)

lemma calls_step:
  assumes "step s a = Some s'" and "c < length (calls s)" and "a \<noteq> Client c"
  shows "c < length (calls s') \<and> calls s' ! c = calls s ! c"
proof (cases a)
  case (Client c')
  with assms calls_client[of c' s s' c] show ?thesis by (auto split: if_splits)
next
  case Spawner
  with assms calls_loop[of s s'] show ?thesis by (auto split: if_splits)
next
  case (Work w)
  with assms calls_worker[of w "workers s ! w" s s'] show ?thesis by (auto split: if_splits)
next
  case (Timer k)
  with assms frame_timer[of k "dogs s ! k" s s'] show ?thesis by (auto split: if_splits)
next
  case (Watch k)
  with assms frame_watchdog[of k "dogs s ! k" s s'] show ?thesis by (auto split: if_splits)
qed (use assms in \<open>auto simp: nth_append split: if_splits\<close>)

lemma recv_blocked:
  assumes "c < length (calls s)" and "calls s ! c = InDoWait (DoWait_recv d) t"
    and "\<not> done_chans s ! d"
  shows "step s (Client c) = None"
  using assms by (simp add: client_def)

lemma lost_step:
  assumes "d < length (done_chans s)" and "tokens d s = 0" and "step s a = Some s'"
  shows "d < length (done_chans s') \<and> tokens d s' = 0"
  using tokens_step[OF assms(3), of d] assms(1,2) by auto

lemma lost_open:
  assumes "reachable s" and "tokens d s = 0"
  shows "\<not> has_run d s \<and> \<not> (d < length (done_chans s) \<and> done_chans s ! d)"
  using reachable_done_ok[OF assms(1), of d] has_run_tokens[of d s] assms(2)
  by (auto simp: done_ok_def)

lemma lost_run:
  assumes "run s as = Some s'" and "reachable s"
    and "d < length (done_chans s)" and "tokens d s = 0"
    and "c < length (calls s)" and "calls s ! c = InDoWait (DoWait_recv d) t"
  shows "reachable s' \<and> d < length (done_chans s') \<and> tokens d s' = 0
       \<and> c < length (calls s') \<and> calls s' ! c = InDoWait (DoWait_recv d) t"
  using assms
proof (induction as arbitrary: s)
  case Nil
  then show ?case by simp
next
  case (Cons a as)
  then obtain s1 where 1: "step s a = Some s1" and 2: "run s1 as = Some s'"
    by (auto split: option.splits)
  have r: "reachable s1" using Cons.prems(2) 1 by (rule reachable_step)
  have l: "d < length (done_chans s1) \<and> tokens d s1 = 0"
    using lost_step[OF Cons.prems(3,4) 1] .
  have "\<not> done_chans s ! d" using lost_open[OF Cons.prems(2,4)] Cons.prems(3) by simp
  from recv_blocked[OF Cons.prems(5,6) this] 1 have "a \<noteq> Client c" by auto
  from calls_step[OF 1 Cons.prems(5) this] Cons.prems(6)
  have c: "c < length (calls s1)" "calls s1 ! c = InDoWait (DoWait_recv d) t" by simp_all
  from Cons.IH[OF 2 r _ _ c] l show ?case by simp
qed

lemma discard_tokens:
  assumes "w < length (workers s)" and "workers s ! w = Check (Some (Wrapped t d))"
    and "closed (pool s) = 1" and "loop_worker w (workers s ! w) s = Some s'"
  shows "Suc (tokens d s') = tokens d s \<and> done_chans s' = done_chans s \<and> calls s' = calls s"
  using assms cnt_pos[of w "workers s" "holding d"]
  by (auto simp: tokens_def prim_defs filter_update_length cnt_def)

text \<open>
  C10. A closure of \<open>DoWait\<close> that a worker receives when the closed flag is already 1 is
  discarded (line 78-79): from then on, under every schedule, no closure around its
  completion channel is ever run, the channel is never closed, and the call of \<open>DoWait\<close>
  that waits on it (line 68) stays where it is with its step blocked.
\<close>

theorem discarded_wrapper_never_completes:
  assumes "reachable s"
    and "w < length (workers s)" and "workers s ! w = Check (Some (Wrapped t d))"
    and "closed (pool s) = 1"
    and "c < length (calls s)" and "calls s ! c = InDoWait (DoWait_recv d) t'"
    and "run s (Work w # as) = Some s'"
  shows "(\<forall>h \<in> set (executed s'). \<not> wraps d h)
     \<and> d < length (done_chans s') \<and> \<not> done_chans s' ! d
     \<and> calls s' ! c = InDoWait (DoWait_recv d) t'
     \<and> step s' (Client c) = None"
proof -
  from assms(7) obtain s1 where 1: "step s (Work w) = Some s1" and 2: "run s1 as = Some s'"
    by (auto split: option.splits)
  from 1 assms(2) have w: "loop_worker w (workers s ! w) s = Some s1"
    by (auto split: if_splits)
  have r1: "reachable s1" using assms(1) 1 by (rule reachable_step)
  note d = discard_tokens[OF assms(2,3,4) w]
  from reachable_tok_inv[OF assms(1)] have "tokens d s \<le> (if d < length (done_chans s) then 1 else 0)"
    by (simp add: tok_inv_def)
  with d have l: "d < length (done_chans s1)" "tokens d s1 = 0"
    by (auto split: if_splits)
  from d assms(5,6) have c: "c < length (calls s1)" "calls s1 ! c = InDoWait (DoWait_recv d) t'"
    by simp_all
  note f = lost_run[OF 2 r1 l c]
  then have o: "\<not> has_run d s'" "\<not> done_chans s' ! d"
    using lost_open[of s' d] by auto
  from o(1) have "\<forall>h \<in> set (executed s'). \<not> wraps d h"
    by (auto simp: has_run_def cnt_def filter_empty_conv)
  moreover from f o(2) have "step s' (Client c) = None"
    by (intro recv_blocked) auto
  ultimately show ?thesis using f o by simp
qed

theorem discarded_wrapper_never_completes_witness:
  "\<exists>s s'. run (boot 1) [Call_Do (Some (Task 2 (Some (TaskError 7)))), Client 0, Client 0,
        Client 0, Spawner, Work 0, Work 0, Work 0, Call_DoWait (Some (Task 1 None)), Client 1,
        Client 1, Client 1, Work 0, Work 0, Work 0, Work 0, Work 0] = Some s
     \<and> workers s ! 0 = Check (Some (Wrapped (Some (Task 1 None)) 0)) \<and> closed (pool s) = 1
     \<and> calls s ! 1 = InDoWait (DoWait_recv 0) (Some (Task 1 None))
     \<and> run s [Work 0, Call_Wait, Client 2, Spawner, Work 0, Client 2, Client 2] = Some s'
     \<and> calls s' ! 2 = WaitReturned (Some (TaskError 7))
     \<and> executed s' = [Plain (Task 2 (Some (TaskError 7)))]
     \<and> \<not> done_chans s' ! 0
     \<and> calls s' ! 1 = InDoWait (DoWait_recv 0) (Some (Task 1 None))
     \<and> step s' (Client 1) = None"
proof -
  define s where "s = \<lparr>pool = \<lparr>maxWorkersCount = 1,
        task = \<lparr>buf = [], cap = 1, is_closed = False\<rparr>,
        errChan = \<lparr>buf = [TaskError 7], cap = 1, is_closed = False\<rparr>,
        closed = 1, timeout = 0, start = True, wg = 1\<rparr>,
     calls = [Returned, InDoWait (DoWait_recv 0) (Some (Task 1 None))],
     looper = Some 1,
     workers = [Check (Some (Wrapped (Some (Task 1 None)) 0))], dogs = [],
     done_chans = [False], executed = [Plain (Task 2 (Some (TaskError 7)))],
     logged = [TaskError 7], panicked = False\<rparr>"
  define s' where "s' = \<lparr>pool = \<lparr>maxWorkersCount = 1,
        task = \<lparr>buf = [], cap = 1, is_closed = True\<rparr>,
        errChan = \<lparr>buf = [], cap = 1, is_closed = False\<rparr>, closed = 1,
        timeout = 0, start = True, wg = 0\<rparr>,
     calls = [Returned, InDoWait (DoWait_recv 0) (Some (Task 1 None)),
        WaitReturned (Some (TaskError 7))],
     looper = None, workers = [Exited], dogs = [], done_chans = [False],
     executed = [Plain (Task 2 (Some (TaskError 7)))],
     logged = [TaskError 7], panicked = False\<rparr>"
  have r: "run (boot 1) [Call_Do (Some (Task 2 (Some (TaskError 7)))), Client 0, Client 0,
        Client 0, Spawner, Work 0, Work 0, Work 0, Call_DoWait (Some (Task 1 None)), Client 1,
        Client 1, Client 1, Work 0, Work 0, Work 0, Work 0, Work 0] = Some s"
    by (simp add: exec_defs s_def)
  have r': "run s [Work 0, Call_Wait, Client 2, Spawner, Work 0, Client 2, Client 2] = Some s'"
    by (simp add: exec_defs s_def s'_def)
  have reach: "reachable s" by (rule run_reachable[OF r reachable_boot])
  have f: "0 < length (workers s)" "workers s ! 0 = Check (Some (Wrapped (Some (Task 1 None)) 0))"
      "closed (pool s) = 1" "1 < length (calls s)"
      "calls s ! 1 = InDoWait (DoWait_recv 0) (Some (Task 1 None))"
    by (simp_all add: s_def)
  have g: "calls s' ! 2 = WaitReturned (Some (TaskError 7))"
      "executed s' = [Plain (Task 2 (Some (TaskError 7)))]"
    by (simp_all add: s'_def)
  from discarded_wrapper_never_completes[OF reach f r'] r r' f g
  show ?thesis by blast
qed

section \<open>DoWait returns after its task\<close>

lemma cnt_mono: "(\<And>x. P x \<Longrightarrow> Q x) \<Longrightarrow> cnt P xs \<le> cnt Q xs"
  by (induction xs) auto

lemma cnt_split: "(\<And>x. \<not> (P x \<and> Q x)) \<Longrightarrow> (\<And>x. P x \<or> Q x \<Longrightarrow> R x) \<Longrightarrow> cnt P xs + cnt Q xs \<le> cnt R xs"
  by (induction xs) auto

subsection \<open>Owners\<close>

lemma owners_Do:
  assumes "c < length (calls s)" and "calls s ! c = InDo pc fn" and "Do c pc fn s = Some s'"
  shows "cnt (owner d) (calls s') = cnt (owner d) (calls s)
       \<and> cnt (owns d t) (calls s') = cnt (owns d t) (calls s)"
  using assms by (cases pc) (auto simp: prim_defs cnt_update split: if_splits)

lemma owners_Wait:
  assumes "c < length (calls s)" and "calls s ! c = InWait pc" and "Wait c pc s = Some s'"
  shows "cnt (owner d) (calls s') = cnt (owner d) (calls s)
       \<and> cnt (owns d t) (calls s') = cnt (owns d t) (calls s)"
  using assms by (cases pc) (auto simp: prim_defs cnt_update split: if_splits list.splits)

lemma owners_DoWait:
  assumes "c < length (calls s)" and "calls s ! c = InDoWait pc x" and "DoWait c pc x s = Some s'"
  shows "cnt (owner d) (calls s') \<le> cnt (owner d) (calls s)
            + (if pc = DoWait_check \<and> d = length (done_chans s)
                  \<and> done_chans s' = done_chans s @ [False] then 1 else 0)
       \<and> cnt (owns d t) (calls s') \<le> cnt (owns d t) (calls s)
            + (if pc = DoWait_check \<and> d = length (done_chans s)
                  \<and> done_chans s' = done_chans s @ [False] then 1 else 0)"
  using assms by (cases pc) (auto simp: prim_defs cnt_update split: if_splits)

lemma step_Client: "step s (Client c) = Some s' \<Longrightarrow> client c s = Some s'"
  by (simp split: if_splits)

lemma step_Spawner: "step s Spawner = Some s' \<Longrightarrow> loop s = Some s'"
  by (simp split: if_splits)

lemma step_Work:
  "step s (Work w) = Some s' \<Longrightarrow> w < length (workers s) \<and> loop_worker w (workers s ! w) s = Some s'"
  by (simp split: if_splits)

lemma step_Timer:
  "step s (Timer k) = Some s' \<Longrightarrow> k < length (dogs s) \<and> loop_timer k (dogs s ! k) s = Some s'"
  by (simp split: if_splits)

lemma step_Watch:
  "step s (Watch k) = Some s' \<Longrightarrow> k < length (dogs s) \<and> loop_watchdog k (dogs s ! k) s = Some s'"
  by (simp split: if_splits)

lemma step_Call:
  "step s (Call_Do fn) = Some s' \<Longrightarrow> s' = s\<lparr>calls := calls s @ [InDo Do_once fn]\<rparr>"
  "step s (Call_DoWait fn) = Some s' \<Longrightarrow> s' = s\<lparr>calls := calls s @ [InDoWait DoWait_once fn]\<rparr>"
  "step s Call_Wait = Some s' \<Longrightarrow> s' = s\<lparr>calls := calls s @ [InWait Wait_close]\<rparr>"
  "step s (Call_SetTimeout x) = Some s' \<Longrightarrow> s' = s\<lparr>pool := (pool s)\<lparr>timeout := x\<rparr>\<rparr>"
  by (simp_all add: SetTimeout_def split: if_splits)

lemma owners_client:
  assumes "client c s = Some s'"
  shows "(cnt (owner d) (calls s') \<le> cnt (owner d) (calls s)
          \<and> cnt (owns d t) (calls s') \<le> cnt (owns d t) (calls s))
       \<or> (d = length (done_chans s) \<and> done_chans s' = done_chans s @ [False]
          \<and> cnt (owner d) (calls s') \<le> Suc (cnt (owner d) (calls s)))"
proof -
  from assms have c: "c < length (calls s)" by (auto simp: client_def split: if_splits)
  show ?thesis
  proof (cases "calls s ! c")
    case (InDo pc fn)
    with assms c owners_Do[OF c InDo, of s' d t] show ?thesis by (simp add: client_def)
  next
    case (InDoWait pc x)
    with assms c owners_DoWait[OF c InDoWait, of s' d t] show ?thesis
      by (auto simp: client_def split: if_splits)
  next
    case (InWait pc)
    with assms c owners_Wait[OF c InWait, of s' d t] show ?thesis by (simp add: client_def)
  qed (use assms c in \<open>auto simp: client_def\<close>)
qed

lemma owners_step:
  assumes "step s a = Some s'"
  shows "(cnt (owner d) (calls s') \<le> cnt (owner d) (calls s)
          \<and> cnt (owns d t) (calls s') \<le> cnt (owns d t) (calls s))
       \<or> (d = length (done_chans s) \<and> length (done_chans s') = Suc d
          \<and> cnt (owner d) (calls s') \<le> Suc (cnt (owner d) (calls s)))"
proof (cases a)
  case (Client c)
  from owners_client[OF step_Client[OF assms[unfolded Client]], of d t] show ?thesis by auto
next
  case Spawner
  from calls_loop[OF step_Spawner[OF assms[unfolded Spawner]]] show ?thesis by simp
next
  case (Work w)
  from step_Work[OF assms[unfolded Work]] calls_worker[of w "workers s ! w" s s']
  show ?thesis by simp
next
  case (Timer k)
  from step_Timer[OF assms[unfolded Timer]] frame_timer[of k "dogs s ! k" s s']
  show ?thesis by simp
next
  case (Watch k)
  from step_Watch[OF assms[unfolded Watch]] frame_watchdog[of k "dogs s ! k" s s']
  show ?thesis by simp
next
  case (Call_Do fn)
  from step_Call(1)[OF assms[unfolded Call_Do]] show ?thesis by simp
next
  case (Call_DoWait fn)
  from step_Call(2)[OF assms[unfolded Call_DoWait]] show ?thesis by simp
next
  case Call_Wait
  from step_Call(3)[OF assms[unfolded Call_Wait]] show ?thesis by simp
next
  case (Call_SetTimeout x)
  from step_Call(4)[OF assms[unfolded Call_SetTimeout]] show ?thesis by simp
qed

lemma own_inv_boot: "own_inv (boot m)"
  by (simp add: own_inv_def boot_def)

lemma own_inv_step:
  assumes "own_inv s" and "step s a = Some s'"
  shows "own_inv s'"
  unfolding own_inv_def
proof
  fix d
  from assms(1) have b: "cnt (owner d) (calls s) \<le> (if d < length (done_chans s) then 1 else 0)"
    by (simp add: own_inv_def)
  from owners_step[OF assms(2), of d None] tokens_step[OF assms(2), of d] b
  show "cnt (owner d) (calls s') \<le> (if d < length (done_chans s') then 1 else 0)"
    by (auto split: if_splits)
qed

lemma reachable_own_inv: "reachable s \<Longrightarrow> own_inv s"
  by (induction rule: reachable.induct) (auto intro: own_inv_boot own_inv_step)

subsection \<open>Strangers\<close>

lemma stranger_wraps: "stranger d t h \<Longrightarrow> wraps d h"
  by (cases h) auto

lemma stranger_queued_queued: "stranger_queued d t x \<Longrightarrow> queued d x"
  by (cases x) (auto dest: stranger_wraps)

lemma stranger_held_holding: "stranger_held d t k \<Longrightarrow> holding d k"
  by (cases k) (auto dest: stranger_wraps stranger_queued_queued)

lemma strangers_le_tokens: "strangers d t s \<le> tokens d s"
proof -
  have "cnt (stranger_queued d t) (buf (task (pool s))) \<le> cnt (queued d) (buf (task (pool s)))"
    by (rule cnt_mono) (rule stranger_queued_queued)
  moreover have "cnt (stranger_held d t) (workers s) \<le> cnt (holding d) (workers s)"
    by (rule cnt_mono) (rule stranger_held_holding)
  moreover have "cnt (stranger d t) (executed s) \<le> cnt (wraps d) (executed s)"
    by (rule cnt_mono) (rule stranger_wraps)
  ultimately show ?thesis by (simp add: strangers_def tokens_def cnt_def)
qed

lemma strangers_Do:
  assumes "Do c pc fn s = Some s'"
  shows "strangers d t s' = strangers d t s"
  using assms by (cases pc; cases fn) (auto simp: strangers_def prim_defs split: if_splits)

lemma strangers_Wait:
  assumes "Wait c pc s = Some s'"
  shows "strangers d t s' = strangers d t s"
  using assms by (cases pc) (auto simp: strangers_def prim_defs split: if_splits list.splits)

lemma strangers_DoWait:
  assumes "DoWait c pc x s = Some s'"
  shows "strangers d t s' = strangers d t s
       \<or> (pc = DoWait_send d \<and> x \<noteq> t \<and> calls s' = (calls s)[c := InDoWait (DoWait_recv d) x])"
  using assms by (cases pc) (auto simp: strangers_def prim_defs split: if_splits)

lemma strangers_loop:
  assumes "loop s = Some s'"
  shows "strangers d t s' = strangers d t s"
  using assms by (auto simp: loop_def strangers_def split: option.splits if_splits)

lemma strangers_worker:
  assumes "w < length (workers s)" and "loop_worker w (workers s ! w) s = Some s'"
  shows "strangers d t s' \<le> strangers d t s"
  using assms cnt_pos[of w "workers s" "stranger_held d t"]
  by (cases "workers s ! w")
     (auto simp: strangers_def prim_defs cnt_update
           split: if_splits option.splits list.splits handler.splits)

lemma strangers_timer:
  assumes "loop_timer k x s = Some s'"
  shows "strangers d t s' = strangers d t s"
  using assms by (cases x) (auto simp: strangers_def prim_defs)

lemma strangers_watchdog:
  assumes "loop_watchdog k x s = Some s'"
  shows "strangers d t s' = strangers d t s"
  using assms by (cases x) (auto simp: strangers_def prim_defs split: if_splits)

lemma strangers_step:
  assumes "step s a = Some s'"
  shows "strangers d t s' \<le> strangers d t s
       \<or> (\<exists>c x. c < length (calls s) \<and> calls s ! c = InDoWait (DoWait_send d) x \<and> x \<noteq> t
              \<and> calls s' = (calls s)[c := InDoWait (DoWait_recv d) x])"
proof (cases a)
  case (Client c)
  note cl = step_Client[OF assms[unfolded Client]]
  then have c: "c < length (calls s)" by (auto simp: client_def split: if_splits)
  show ?thesis
  proof (cases "calls s ! c")
    case (InDo pc fn)
    with cl c strangers_Do[of c pc fn s s' d t] show ?thesis by (simp add: client_def)
  next
    case (InDoWait pc x)
    with cl c strangers_DoWait[of c pc x s s' d t] show ?thesis by (auto simp: client_def)
  next
    case (InWait pc)
    with cl c strangers_Wait[of c pc s s' d t] show ?thesis by (simp add: client_def)
  qed (use cl c in \<open>auto simp: client_def\<close>)
next
  case Spawner
  from strangers_loop[OF step_Spawner[OF assms[unfolded Spawner]]] show ?thesis by simp
next
  case (Work w)
  from step_Work[OF assms[unfolded Work]] strangers_worker[of w s s' d t]
  show ?thesis by simp
next
  case (Timer k)
  from step_Timer[OF assms[unfolded Timer]] strangers_timer[of k "dogs s ! k" s s' d t]
  show ?thesis by simp
next
  case (Watch k)
  from step_Watch[OF assms[unfolded Watch]] strangers_watchdog[of k "dogs s ! k" s s' d t]
  show ?thesis by simp
next
  case (Call_Do fn)
  from step_Call(1)[OF assms[unfolded Call_Do]] show ?thesis by (simp add: strangers_def)
next
  case (Call_DoWait fn)
  from step_Call(2)[OF assms[unfolded Call_DoWait]] show ?thesis by (simp add: strangers_def)
next
  case Call_Wait
  from step_Call(3)[OF assms[unfolded Call_Wait]] show ?thesis by (simp add: strangers_def)
next
  case (Call_SetTimeout x)
  from step_Call(4)[OF assms[unfolded Call_SetTimeout]] show ?thesis by (simp add: strangers_def)
qed

lemma owners_split:
  assumes "x \<noteq> t"
  shows "cnt (owns d t) xs + cnt (owns d x) xs \<le> cnt (owner d) xs"
proof (rule cnt_split)
  fix k show "\<not> (owns d t k \<and> owns d x k)"
    using assms by (cases "(d, t, k)" rule: owns.cases) auto
next
  fix k assume "owns d t k \<or> owns d x k"
  then show "owner d k" by (cases "(d, t, k)" rule: owns.cases) auto
qed

lemma link_ok_boot: "link_ok d t (boot m)"
  by (simp add: link_ok_def boot_def)

lemma link_ok_step:
  assumes "link_ok d t s" and "tok_inv s" and "own_inv s" and "step s a = Some s'"
  shows "link_ok d t s'"
  unfolding link_ok_def
proof
  assume o': "0 < cnt (owns d t) (calls s')"
  from assms(2) have tk: "tokens d s \<le> (if d < length (done_chans s) then 1 else 0)"
    by (simp add: tok_inv_def)
  from assms(3) have ow: "cnt (owner d) (calls s) \<le> (if d < length (done_chans s) then 1 else 0)"
    by (simp add: own_inv_def)
  from strangers_step[OF assms(4), of d t]
  show "strangers d t s' = 0"
  proof
    assume le: "strangers d t s' \<le> strangers d t s"
    from owners_step[OF assms(4), of d t]
    show ?thesis
    proof
      assume "cnt (owner d) (calls s') \<le> cnt (owner d) (calls s)
          \<and> cnt (owns d t) (calls s') \<le> cnt (owns d t) (calls s)"
      with o' have "0 < cnt (owns d t) (calls s)" by simp
      with assms(1) le show ?thesis by (simp add: link_ok_def)
    next
      assume "d = length (done_chans s) \<and> length (done_chans s') = Suc d
          \<and> cnt (owner d) (calls s') \<le> Suc (cnt (owner d) (calls s))"
      with tk have "tokens d s = 0" by simp
      with strangers_le_tokens[of d t s] le show ?thesis by simp
    qed
  next
    assume "\<exists>c x. c < length (calls s) \<and> calls s ! c = InDoWait (DoWait_send d) x \<and> x \<noteq> t
              \<and> calls s' = (calls s)[c := InDoWait (DoWait_recv d) x]"
    then obtain c x where c: "c < length (calls s)"
      and k: "calls s ! c = InDoWait (DoWait_send d) x" and x: "x \<noteq> t"
      and e: "calls s' = (calls s)[c := InDoWait (DoWait_recv d) x]"
      by blast
    from c k have 1: "0 < cnt (owns d x) (calls s)" by (intro cnt_pos[of c]) auto
    from o' e c k x have 2: "0 < cnt (owns d t) (calls s)" by (simp add: cnt_update)
    from owners_split[OF x, of d "calls s"] 1 2 ow show ?thesis by (auto split: if_splits)
  qed
qed

lemma reachable_link_ok: "reachable s \<Longrightarrow> link_ok d t s"
proof (induction rule: reachable.induct)
  case (reachable_boot max0)
  show ?case by (rule link_ok_boot)
next
  case (reachable_step s a s')
  from reachable_step.IH reachable_tok_inv[OF reachable_step.hyps(1)]
    reachable_own_inv[OF reachable_step.hyps(1)] reachable_step.hyps(2)
  show ?case by (rule link_ok_step)
qed

subsection \<open>No nil closure has run\<close>

lemma executed_loop: "loop s = Some s' \<Longrightarrow> executed s' = executed s"
  by (auto simp: loop_def split: option.splits if_splits)

lemma nil_worker:
  assumes "cnt nil_wrapped (executed s) = 0" and "loop_worker w k s = Some s'"
  shows "cnt nil_wrapped (executed s') = 0"
  using assms
  by (cases k)
     (auto simp: prim_defs split: if_splits option.splits list.splits handler.splits)

lemma nil_step:
  assumes "cnt nil_wrapped (executed s) = 0" and "step s a = Some s'"
  shows "cnt nil_wrapped (executed s') = 0"
proof (cases a)
  case (Client c)
  from frame_client[OF step_Client[OF assms(2)[unfolded Client]]] assms(1) show ?thesis by simp
next
  case Spawner
  from executed_loop[OF step_Spawner[OF assms(2)[unfolded Spawner]]] assms(1) show ?thesis by simp
next
  case (Work w)
  from step_Work[OF assms(2)[unfolded Work]] nil_worker[OF assms(1), of w "workers s ! w" s']
  show ?thesis by simp
next
  case (Timer k)
  from step_Timer[OF assms(2)[unfolded Timer]] frame_timer[of k "dogs s ! k" s s'] assms(1)
  show ?thesis by simp
next
  case (Watch k)
  from step_Watch[OF assms(2)[unfolded Watch]] frame_watchdog[of k "dogs s ! k" s s'] assms(1)
  show ?thesis by simp
next
  case (Call_Do fn)
  from step_Call(1)[OF assms(2)[unfolded Call_Do]] assms(1) show ?thesis by simp
next
  case (Call_DoWait fn)
  from step_Call(2)[OF assms(2)[unfolded Call_DoWait]] assms(1) show ?thesis by simp
next
  case Call_Wait
  from step_Call(3)[OF assms(2)[unfolded Call_Wait]] assms(1) show ?thesis by simp
next
  case (Call_SetTimeout x)
  from step_Call(4)[OF assms(2)[unfolded Call_SetTimeout]] assms(1) show ?thesis by simp
qed

lemma reachable_nil: "reachable s \<Longrightarrow> cnt nil_wrapped (executed s) = 0"
  by (induction rule: reachable.induct) (auto simp: boot_def intro: nil_step)

lemma cnt_zero: "cnt P xs = 0 \<Longrightarrow> x \<in> set xs \<Longrightarrow> \<not> P x"
  by (auto simp: cnt_def filter_empty_conv)

lemma cnt_witness: "0 < cnt P xs \<Longrightarrow> \<exists>x \<in> set xs. P x"
  by (auto simp: cnt_def filter_empty_conv)

lemma closed_done_has_task:
  assumes "reachable s" and "c < length (calls s)"
    and "calls s ! c = InDoWait (DoWait_recv d) t"
    and "d < length (done_chans s)" and "done_chans s ! d"
  shows "\<exists>x. t = Some x \<and> Wrapped (Some x) d \<in> set (executed s)"
proof -
  from reachable_done_ok[OF assms(1), of d] assms(4,5) have "has_run d s"
    by (simp add: done_ok_def)
  then obtain h where h: "h \<in> set (executed s)" "wraps d h"
    using cnt_witness[of "wraps d" "executed s"] by (auto simp: has_run_def)
  from assms(2,3) have "0 < cnt (owns d t) (calls s)" by (intro cnt_pos[of c]) auto
  with reachable_link_ok[OF assms(1), of d t] have "strangers d t s = 0"
    by (simp add: link_ok_def)
  then have "cnt (stranger d t) (executed s) = 0" by (simp add: strangers_def)
  from cnt_zero[OF this h(1)] have ns: "\<not> stranger d t h" .
  from cnt_zero[OF reachable_nil[OF assms(1)] h(1)] have nn: "\<not> nil_wrapped h" .
  from h(2) ns nn obtain x where "h = Wrapped (Some x) d" "t = Some x"
    by (cases h rule: nil_wrapped.cases) auto
  with h(1) show ?thesis by auto
qed

text \<open>
  C6. A call of \<open>DoWait\<close> returns in two places only: at its check of the closed flag
  (line 59), when the task was not accepted, and at the receive on its completion channel
  (line 68). In every reachable state, a call that returns at line 68 finds its channel
  closed, and the closure made for this very call, around its own argument, is in the
  history of handlers that have run to completion: the task has fully executed before
  \<open>DoWait\<close> returns. An accepted call whose channel is still open cannot take its step.
\<close>

theorem DoWait_returns_after_task:
  assumes "reachable s" and "c < length (calls s)" and "calls s ! c = InDoWait pc t"
    and "step s (Client c) = Some s'" and "calls s' ! c = Returned"
  shows "(pc = DoWait_check \<and> closed (pool s) = 1 \<and> executed s' = executed s)
       \<or> (\<exists>d x. pc = DoWait_recv d \<and> t = Some x \<and> d < length (done_chans s) \<and> done_chans s ! d
              \<and> executed s' = executed s \<and> Wrapped (Some x) d \<in> set (executed s'))"
proof -
  note cl = step_Client[OF assms(4)]
  with assms(2,3) have dw: "DoWait c pc t s = Some s'" by (simp add: client_def)
  show ?thesis
  proof (cases pc)
    case DoWait_once
    with dw assms(2,3,5) show ?thesis by (auto simp: prim_defs)
  next
    case DoWait_check
    with dw assms(2,3,5) show ?thesis by (auto simp: prim_defs split: if_splits)
  next
    case (DoWait_send d)
    with dw assms(2,3,5) show ?thesis by (auto simp: prim_defs split: if_splits)
  next
    case (DoWait_recv d)
    with dw have 1: "d < length (done_chans s)" "done_chans s ! d" "executed s' = executed s"
      by (auto simp: prim_defs split: if_splits)
    from closed_done_has_task[OF assms(1,2) assms(3)[unfolded DoWait_recv] 1(1,2)] 1 DoWait_recv
    show ?thesis by auto
  qed
qed

theorem DoWait_returns_after_task_witness:
  "\<exists>s0 s s'. run (boot 1) [Call_DoWait (Some (Task 1 None)), Client 0, Client 0, Client 0,
         Spawner, Work 0, Work 0, Work 0] = Some s0
     \<and> calls s0 ! 0 = InDoWait (DoWait_recv 0) (Some (Task 1 None))
     \<and> executed s0 = [] \<and> step s0 (Client 0) = None
     \<and> run s0 [Work 0, Work 0] = Some s
     \<and> calls s ! 0 = InDoWait (DoWait_recv 0) (Some (Task 1 None))
     \<and> step s (Client 0) = Some s' \<and> calls s' ! 0 = Returned
     \<and> executed s' = [Wrapped (Some (Task 1 None)) 0]
     \<and> Wrapped (Some (Task 1 None)) 0 \<in> set (executed s')"
proof -
  define p where "p = \<lparr>maxWorkersCount = 1, task = \<lparr>buf = [], cap = 1, is_closed = False\<rparr>,
        errChan = \<lparr>buf = [], cap = 1, is_closed = False\<rparr>, closed = 0,
        timeout = 0, start = True, wg = 1\<rparr>"
  define s0 where "s0 = \<lparr>pool = p, calls = [InDoWait (DoWait_recv 0) (Some (Task 1 None))],
     looper = Some 1,
     workers = [Running (Wrapped (Some (Task 1 None)) 0) None], dogs = [],
     done_chans = [False], executed = [], logged = [], panicked = False\<rparr>"
  define s where "s = \<lparr>pool = p, calls = [InDoWait (DoWait_recv 0) (Some (Task 1 None))],
     looper = Some 1, workers = [Finished None None], dogs = [],
     done_chans = [True], executed = [Wrapped (Some (Task 1 None)) 0],
     logged = [], panicked = False\<rparr>"
  define s' where "s' = s\<lparr>calls := [Returned]\<rparr>"
  have r0: "run (boot 1) [Call_DoWait (Some (Task 1 None)), Client 0, Client 0, Client 0,
         Spawner, Work 0, Work 0, Work 0] = Some s0"
    by (simp add: exec_defs s0_def p_def)
  have r: "run s0 [Work 0, Work 0] = Some s"
    by (simp add: exec_defs s0_def s_def p_def)
  have b: "step s0 (Client 0) = None" "calls s0 ! 0 = InDoWait (DoWait_recv 0) (Some (Task 1 None))"
      "executed s0 = []"
    by (simp_all add: exec_defs s0_def)
  have reach: "reachable s"
    by (rule run_reachable[OF r run_reachable[OF r0 reachable_boot]])
  have f: "0 < length (calls s)" "calls s ! 0 = InDoWait (DoWait_recv 0) (Some (Task 1 None))"
    by (simp_all add: s_def)
  have st: "step s (Client 0) = Some s'"
    by (simp add: exec_defs s_def s'_def)
  have g: "calls s' ! 0 = Returned" "executed s' = [Wrapped (Some (Task 1 None)) 0]"
    by (simp_all add: s'_def s_def)
  from DoWait_returns_after_task[OF reach f st g(1)]
  have "Wrapped (Some (Task 1 None)) 0 \<in> set (executed s')" by auto
  with r0 b r f st g show ?thesis by blast
qed

end
